theory Spec2Isabelle
  imports Main "HOL-Library.Word"
begin

unbundle bit_operations_syntax

section \<open>Data model\<close>

text \<open>
  The repository is a single Go program, present in two revisions: \<^verbatim>\<open>main.go\<close>
  and a later one that adds the inspection flag \<^verbatim>\<open>-i\<close> (\<^verbatim>\<open>showWordInfo\<close>,
  \<^verbatim>\<open>isBinary\<close>, \<^verbatim>\<open>binaryToInt\<close>). The functions the two revisions share are
  the same text, apart from the wording of one fatal message; they are embedded from
  \<^verbatim>\<open>main.go\<close>.

  A Go \<^verbatim>\<open>byte\<close> is an 8-bit word, a Go \<^verbatim>\<open>int\<close> a 64-bit word read as
  two's complement (its size on 64-bit platforms; the integers the program converts have
  11 bits, so that a 32-bit \<^verbatim>\<open>int\<close> holds the same values), \<^verbatim>\<open>[]bool\<close> a list of
  booleans, and a Go \<^verbatim>\<open>string\<close> a list of bytes (\<^typ>\<open>string\<close>). Lengths, loop
  counters and the counter \<^verbatim>\<open>groupCount\<close> never go below zero nor near the word size
  and are natural numbers.
\<close>

type_synonym byte = "8 word"
type_synonym go_int = "64 word"

section \<open>Bit codec\<close>

text \<open>
  \<^verbatim>\<open>bytesToBits\<close>: for every byte, the inner loop runs \<^verbatim>\<open>i\<close> from 7 down to 0 and
  appends \<^verbatim>\<open>((by>>i)&1) == 1\<close>.
\<close>

definition byteBits :: "byte \<Rightarrow> bool list" where
  "byteBits w = map (\<lambda>i. (drop_bit i w AND 1) = 1) (rev [0..<8])"

primrec bytesToBits :: "byte list \<Rightarrow> bool list" where
  "bytesToBits [] = []"
| "bytesToBits (w # b) = byteBits w @ bytesToBits b"

text \<open>
  \<^verbatim>\<open>bitsToBytes\<close>: \<^verbatim>\<open>out\<close> is allocated with \<^verbatim>\<open>(len(bits)+7)/8\<close> zero bytes; the loop
  over \<^verbatim>\<open>i, b\<close> sets \<^verbatim>\<open>out[i/8] |= 1 << (7 - i%8)\<close> when \<^verbatim>\<open>b\<close> holds. The index
  \<^verbatim>\<open>i/8\<close> is always below the allocated length, so the update never panics.
\<close>

fun bitsToBytes_loop :: "nat \<Rightarrow> bool list \<Rightarrow> byte list \<Rightarrow> byte list" where
  "bitsToBytes_loop i [] out = out"
| "bitsToBytes_loop i (b # bits) out =
     bitsToBytes_loop (Suc i) bits
       (if b then out[i div 8 := (out ! (i div 8)) OR push_bit (7 - i mod 8) 1] else out)"

definition bitsToBytes :: "bool list \<Rightarrow> byte list" where
  "bitsToBytes bits = bitsToBytes_loop 0 bits (replicate ((length bits + 7) div 8) 0)"

text \<open>
  \<^verbatim>\<open>bitsToInt\<close>: \<^verbatim>\<open>n\<close> starts at 0; every bit shifts \<^verbatim>\<open>n\<close> left by one and sets
  the lowest bit when the bit holds.
\<close>

primrec bitsToInt_loop :: "go_int \<Rightarrow> bool list \<Rightarrow> go_int" where
  "bitsToInt_loop n [] = n"
| "bitsToInt_loop n (b # bits) =
     bitsToInt_loop (if b then push_bit 1 n OR 1 else push_bit 1 n) bits"

definition bitsToInt :: "bool list \<Rightarrow> go_int" where
  "bitsToInt bits = bitsToInt_loop 0 bits"

section \<open>SHA-256\<close>

text \<open>
  \<^verbatim>\<open>checksumBits\<close> calls \<^verbatim>\<open>sha256.Sum256\<close> of the Go standard library, which is
  not part of the repository. It implements SHA-256 of FIPS 180-4, which is written out
  here so that the pipeline can be evaluated; \<open>sum256\<close> returns the 32 bytes of the
  \<^verbatim>\<open>[32]byte\<close> result. The round constants (the first 32 bits of the fractional parts
  of the cube roots of the first 64 primes) and the initial hash value (of the square
  roots of the first 8 primes) are written in decimal.
\<close>

type_synonym u32 = "32 word"

definition K256 :: "u32 list" where
  "K256 = [
    1116352408, 1899447441, 3049323471, 3921009573, 961987163, 1508970993,
    2453635748, 2870763221, 3624381080, 310598401, 607225278, 1426881987,
    1925078388, 2162078206, 2614888103, 3248222580, 3835390401, 4022224774,
    264347078, 604807628, 770255983, 1249150122, 1555081692, 1996064986,
    2554220882, 2821834349, 2952996808, 3210313671, 3336571891, 3584528711,
    113926993, 338241895, 666307205, 773529912, 1294757372, 1396182291,
    1695183700, 1986661051, 2177026350, 2456956037, 2730485921, 2820302411,
    3259730800, 3345764771, 3516065817, 3600352804, 4094571909, 275423344,
    430227734, 506948616, 659060556, 883997877, 958139571, 1322822218,
    1537002063, 1747873779, 1955562222, 2024104815, 2227730452, 2361852424,
    2428436474, 2756734187, 3204031479, 3329325298]"

type_synonym digest = "u32 \<times> u32 \<times> u32 \<times> u32 \<times> u32 \<times> u32 \<times> u32 \<times> u32"

definition init256 :: digest where
  "init256 = (1779033703, 3144134277, 1013904242, 2773480762,
              1359893119, 2600822924, 528734635, 1541459225)"

definition rotr :: "nat \<Rightarrow> u32 \<Rightarrow> u32" where
  "rotr n x = drop_bit n x OR push_bit (32 - n) x"

definition be32 :: "byte list \<Rightarrow> u32" where
  "be32 bs = foldl (\<lambda>acc b. push_bit 8 acc OR ucast b) 0 bs"

definition be_bytes :: "nat \<Rightarrow> 'a::len word \<Rightarrow> byte list" where
  "be_bytes n x = map (\<lambda>i. ucast (drop_bit (8 * i) x)) (rev [0..<n])"

fun schedule :: "nat \<Rightarrow> u32 list \<Rightarrow> u32 list" where
  "schedule 0 w = w"
| "schedule (Suc n) w =
     (let t = length w;
          v1 = w ! (t - 2); v0 = w ! (t - 15);
          s0 = rotr 7 v0 XOR rotr 18 v0 XOR drop_bit 3 v0;
          s1 = rotr 17 v1 XOR rotr 19 v1 XOR drop_bit 10 v1
      in schedule n (w @ [w ! (t - 16) + s0 + w ! (t - 7) + s1]))"

fun round256 :: "digest \<Rightarrow> u32 \<times> u32 \<Rightarrow> digest" where
  "round256 (a, b, c, d, e, f, g, h) (k, w) =
     (let t1 = h + (rotr 6 e XOR rotr 11 e XOR rotr 25 e) + ((e AND f) XOR (NOT e AND g)) + k + w;
          t2 = (rotr 2 a XOR rotr 13 a XOR rotr 22 a) + ((a AND b) XOR (a AND c) XOR (b AND c))
      in (t1 + t2, a, b, c, d + t1, e, f, g))"

fun add256 :: "digest \<Rightarrow> digest \<Rightarrow> digest" where
  "add256 (a, b, c, d, e, f, g, h) (a', b', c', d', e', f', g', h') =
     (a + a', b + b', c + c', d + d', e + e', f + f', g + g', h + h')"

definition block256 :: "digest \<Rightarrow> byte list \<Rightarrow> digest" where
  "block256 h blk =
     (let w = schedule 48 (map (\<lambda>i. be32 (take 4 (drop (4 * i) blk))) [0..<16])
      in add256 h (foldl round256 h (zip K256 w)))"

function blocks256 :: "digest \<Rightarrow> byte list \<Rightarrow> digest" where
  "blocks256 h m = (if length m < 64 then h else blocks256 (block256 h (take 64 m)) (drop 64 m))"
  by pat_completeness auto
termination
  by (relation "measure (\<lambda>(h, m). length m)") auto

definition pad256 :: "byte list \<Rightarrow> byte list" where
  "pad256 m = m @ [0x80] @ replicate ((55 + 64 - length m mod 64) mod 64) 0
                @ be_bytes 8 (word_of_nat (8 * length m) :: 64 word)"

fun digest_bytes :: "digest \<Rightarrow> byte list" where
  "digest_bytes (a, b, c, d, e, f, g, h) =
     concat (map (be_bytes 4) [a, b, c, d, e, f, g, h])"

definition sum256 :: "byte list \<Rightarrow> byte list" where
  "sum256 m = digest_bytes (blocks256 init256 (pad256 m))"


section \<open>Failures\<close>

text \<open>
  \<^verbatim>\<open>log.Fatalf\<close> prints its message and ends the process: \<open>Fatal\<close> with the message.
  The two run-time panics the code can reach are a slice expression beyond the capacity
  and an index beyond the length.
\<close>

datatype failure = Fatal string | SliceBoundsOutOfRange | IndexOutOfRange

text \<open>
  The slice expression \<^verbatim>\<open>s[lo:hi]\<close>. Go panics unless \<^verbatim>\<open>lo <= hi <= cap(s)\<close>. Both
  slices the program takes are of a slice whose capacity is its length:
  \<^verbatim>\<open>bytesToBits\<close> allocates capacity \<^verbatim>\<open>len(b)*8\<close> and appends exactly that many
  elements, and in \<^verbatim>\<open>generateMnemonic\<close> the upper bound is at most the length.
\<close>

definition go_slice :: "'a list \<Rightarrow> nat \<Rightarrow> nat \<Rightarrow> failure + 'a list" where
  "go_slice s lo hi =
     (if lo \<le> hi \<and> hi \<le> length s then Inr (take (hi - lo) (drop lo s))
      else Inl SliceBoundsOutOfRange)"

section \<open>The persisted entropy file\<close>

text \<open>
  The state of \<^verbatim>\<open>binary.txt\<close>: absent, present but not accessible, or present with
  its bytes.
\<close>

datatype store = NotExist | NoAccess | Content string

datatype ioerr = ErrNotExist | ErrPermission | ErrTooLong

fun errText :: "ioerr \<Rightarrow> string" where
  "errText ErrNotExist = ''open binary.txt: no such file or directory''"
| "errText ErrPermission = ''open binary.txt: permission denied''"
| "errText ErrTooLong = ''bufio.Scanner: token too long''"

abbreviation LF :: char where "LF \<equiv> CHR 0x0A"
abbreviation CR :: char where "CR \<equiv> CHR 0x0D"

text \<open>
  \<^verbatim>\<open>writeBinaryFile\<close>: the loop over \<^verbatim>\<open>i, b\<close> writes the digit, then a space and
  \<^verbatim>\<open>groupCount++\<close> when \<^verbatim>\<open>(i+1)%11 == 0\<close>, then a newline and \<^verbatim>\<open>groupCount = 0\<close>
  when \<^verbatim>\<open>groupCount == 6\<close>. After the loop a newline is written when
  \<^verbatim>\<open>groupCount != 0\<close>. \<open>writeLoop\<close> returns the bytes written and the final
  \<^verbatim>\<open>groupCount\<close>; \<open>binaryText\<close> is what the writer has received when it is flushed.
  \<^verbatim>\<open>os.Create\<close> fails on an inaccessible file and leaves it as it is; otherwise the file
  is replaced. (A failure of the flush itself, such as a full disk, is not modelled.)
\<close>

fun writeLoop :: "nat \<Rightarrow> bool list \<Rightarrow> nat \<Rightarrow> string \<Rightarrow> string \<times> nat" where
  "writeLoop i [] groupCount out = (out, groupCount)"
| "writeLoop i (b # bits) groupCount out =
     (let out1 = out @ [if b then CHR ''1'' else CHR ''0''];
          (out2, gc2) = (if (i + 1) mod 11 = 0 then (out1 @ '' '', groupCount + 1)
                         else (out1, groupCount));
          (out3, gc3) = (if gc2 = 6 then (out2 @ [LF], 0) else (out2, gc2))
      in writeLoop (i + 1) bits gc3 out3)"

definition binaryText :: "byte list \<Rightarrow> string" where
  "binaryText entropy =
     (let (out, groupCount) = writeLoop 0 (bytesToBits entropy) 0 []
      in if groupCount \<noteq> 0 then out @ [LF] else out)"

definition writeBinaryFile :: "store \<Rightarrow> byte list \<Rightarrow> ioerr option \<times> store" where
  "writeBinaryFile f entropy =
     (case f of NoAccess \<Rightarrow> (Some ErrPermission, NoAccess)
      | _ \<Rightarrow> (None, Content (binaryText entropy)))"

text \<open>
  \<^verbatim>\<open>readBinaryFile\<close> reads the file with a \<^verbatim>\<open>bufio.Scanner\<close> in its default
  configuration: tokens are lines (\<^verbatim>\<open>bufio.ScanLines\<close>: the text up to a newline or to
  the end of the input, without the newline and without one trailing carriage return; no
  token after a final newline), and a line that does not fit the scanner's buffer of
  \<^verbatim>\<open>bufio.MaxScanTokenSize\<close> = 64 * 1024 bytes stops the scan with
  \<^verbatim>\<open>bufio.ErrTooLong\<close>. The buffer holds a line of up to 65535 bytes with its newline, or
  at the end of the input; with 65536 bytes and no newline among them it is full, and the
  scan fails.

  \<open>rawLines cur data\<close> are the lines as they are delimited, \<open>cur\<close> being the part of the
  current line already read.
\<close>

definition maxScanTokenSize :: nat where
  "maxScanTokenSize = 64 * 1024"

fun rawLines :: "string \<Rightarrow> string \<Rightarrow> string list" where
  "rawLines cur [] = (if cur = [] then [] else [cur])"
| "rawLines cur (c # cs) = (if c = LF then cur # rawLines [] cs else rawLines (cur @ [c]) cs)"

definition dropCR :: "string \<Rightarrow> string" where
  "dropCR l = (if l \<noteq> [] \<and> last l = CR then butlast l else l)"

text \<open>
  The inner loop \<^verbatim>\<open>for _, c := range line\<close> decodes the line as UTF-8 and compares each
  code point with \<^verbatim>\<open>'0'\<close> and \<^verbatim>\<open>'1'\<close>. A byte below 0x80 is never part of a longer
  encoding, and the decoder consumes one byte on an invalid sequence, so the code points
  equal to \<^verbatim>\<open>'0'\<close> or \<^verbatim>\<open>'1'\<close> are exactly the bytes 0x30 and 0x31: the loop is modelled
  on the bytes.
\<close>

primrec lineBits :: "bool list \<Rightarrow> string \<Rightarrow> bool list" where
  "lineBits bits [] = bits"
| "lineBits bits (c # cs) =
     lineBits (if c = CHR ''0'' then bits @ [False]
               else if c = CHR ''1'' then bits @ [True] else bits) cs"

fun scanLoop :: "string list \<Rightarrow> bool list \<Rightarrow> bool list \<times> ioerr option" where
  "scanLoop [] bits = (bits, None)"
| "scanLoop (l # ls) bits =
     (if maxScanTokenSize \<le> length l then (bits, Some ErrTooLong)
      else scanLoop ls (lineBits bits (dropCR l)))"

definition readBinaryFile :: "store \<Rightarrow> bool list \<times> ioerr option" where
  "readBinaryFile f =
     (case f of NotExist \<Rightarrow> ([], Some ErrNotExist)
      | NoAccess \<Rightarrow> ([], Some ErrPermission)
      | Content data \<Rightarrow> scanLoop (rawLines [] data) [])"

section \<open>Mnemonic engine\<close>

text \<open>
  \<^verbatim>\<open>checksumBits\<close>: the entropy bits are packed, hashed, and the hash bits are sliced
  \<^verbatim>\<open>[:csLen]\<close> with \<^verbatim>\<open>csLen = len(entropyBits)/32\<close>.
\<close>

definition checksumBits :: "bool list \<Rightarrow> failure + bool list" where
  "checksumBits entropyBits =
     (let entropy = bitsToBytes entropyBits;
          hash = sum256 entropy;
          csLen = length entropyBits div 32
      in go_slice (bytesToBits hash) 0 csLen)"

text \<open>
  \<^verbatim>\<open>strings.Join(words, " ")\<close>.
\<close>

fun strings_Join :: "string list \<Rightarrow> string \<Rightarrow> string" where
  "strings_Join [] sep = []"
| "strings_Join [w] sep = w"
| "strings_Join (w # ws) sep = w @ sep @ strings_Join ws sep"

text \<open>
  \<^verbatim>\<open>generateMnemonic\<close>: \<^verbatim>\<open>i\<close> runs over \<^verbatim>\<open>0 .. wordCount-1\<close>; each step slices
  \<^verbatim>\<open>bits[i*11 : (i+1)*11]\<close>, converts it and indexes the word list, which panics when the
  index is not below the list's length.
\<close>

primrec generateMnemonic_loop ::
    "nat list \<Rightarrow> bool list \<Rightarrow> string list \<Rightarrow> string list \<Rightarrow> failure + string list" where
  "generateMnemonic_loop [] bits wordList words = Inr words"
| "generateMnemonic_loop (i # is) bits wordList words =
     (case go_slice bits (i * 11) ((i + 1) * 11) of
        Inl p \<Rightarrow> Inl p
      | Inr grp \<Rightarrow>
          (let index = bitsToInt grp in
           if 0 \<le> sint index \<and> nat (sint index) < length wordList
           then generateMnemonic_loop is bits wordList (words @ [wordList ! nat (sint index)])
           else Inl IndexOutOfRange))"

definition generateMnemonic :: "bool list \<Rightarrow> string list \<Rightarrow> failure + string" where
  "generateMnemonic bits wordList =
     (let wordCount = length bits div 11 in
      case generateMnemonic_loop [0..<wordCount] bits wordList [] of
        Inl p \<Rightarrow> Inl p
      | Inr words \<Rightarrow> Inr (strings_Join words '' ''))"

text \<open>
  \<^verbatim>\<open>generatePassphraseFromBinary\<close> reads the file system and leaves it as it is; the
  model returns the file with the result. (The later revision words the first message
  \<^verbatim>\<open>Error: binary.txt not found. Use -b first.\<close>)
\<close>

definition generatePassphraseFromBinary ::
    "string list \<Rightarrow> store \<Rightarrow> (failure + string) \<times> store" where
  "generatePassphraseFromBinary wordList f =
     (if f = NotExist
      then (Inl (Fatal ''Error: binary.txt not found. Please generate it first with -b''), f)
      else case readBinaryFile f of
        (bits, Some err) \<Rightarrow> (Inl (Fatal (''Error reading binary.txt: '' @ errText err)), f)
      | (bits, None) \<Rightarrow>
          (case checksumBits bits of
             Inl p \<Rightarrow> (Inl p, f)
           | Inr csBits \<Rightarrow> (generateMnemonic (bits @ csBits) wordList, f)))"

section \<open>Token inspection\<close>

text \<open>
  \<^verbatim>\<open>strings.ToLower\<close> and \<^verbatim>\<open>strings.TrimSpace\<close> of the standard library are modelled
  on ASCII: upper-case letters are mapped to lower case, and tab, newline, vertical tab,
  form feed, carriage return and space are trimmed from both ends. Bytes from 0x80 on are
  left as they are (Go maps and trims some code points beyond ASCII); every statement
  below is about ASCII input.
\<close>

definition toLowerChar :: "char \<Rightarrow> char" where
  "toLowerChar c =
     (let n = (of_char c :: nat) in if 65 \<le> n \<and> n \<le> 90 then char_of (n + 32) else c)"

definition toLower :: "string \<Rightarrow> string" where
  "toLower s = map toLowerChar s"

definition isSpace :: "char \<Rightarrow> bool" where
  "isSpace c = ((of_char c :: nat) \<in> {9, 10, 11, 12, 13, 32})"

definition trimSpace :: "string \<Rightarrow> string" where
  "trimSpace s = rev (dropWhile isSpace (rev (dropWhile isSpace s)))"

primrec isBinary_loop :: "string \<Rightarrow> bool" where
  "isBinary_loop [] = True"
| "isBinary_loop (c # cs) =
     (if c \<noteq> CHR ''0'' \<and> c \<noteq> CHR ''1'' then False else isBinary_loop cs)"

definition isBinary :: "string \<Rightarrow> bool" where
  "isBinary s = (if isBinary_loop s then 0 < length s else False)"

primrec binaryToInt_loop :: "go_int \<Rightarrow> string \<Rightarrow> go_int" where
  "binaryToInt_loop n [] = n"
| "binaryToInt_loop n (c # cs) =
     binaryToInt_loop (if c = CHR ''1'' then push_bit 1 n OR 1 else push_bit 1 n) cs"

definition binaryToInt :: "string \<Rightarrow> go_int" where
  "binaryToInt bin = binaryToInt_loop 0 bin"

text \<open>
  The two formats: \<^verbatim>\<open>fmt.Sprintf("%011s", input)\<close> pads the string on the left with
  zeros to 11 characters, and \<^verbatim>\<open>%011b\<close> prints a non-negative integer in binary,
  padded in the same way.
\<close>

definition zeroPad :: "nat \<Rightarrow> string \<Rightarrow> string" where
  "zeroPad width s = replicate (width - length s) CHR ''0'' @ s"

fun binDigits :: "nat \<Rightarrow> string" where
  "binDigits n =
     (if n < 2 then [if n = 0 then CHR ''0'' else CHR ''1'']
      else binDigits (n div 2) @ [if n mod 2 = 0 then CHR ''0'' else CHR ''1''])"

definition fmt_011b :: "nat \<Rightarrow> string" where
  "fmt_011b i = zeroPad 11 (binDigits i)"

text \<open>
  What \<^verbatim>\<open>showWordInfo\<close> prints, line by line: \<^verbatim>\<open>Binary: ...\<close>, \<^verbatim>\<open>Index: ...\<close>,
  \<^verbatim>\<open>Word: ...\<close>, and the three error lines \<^verbatim>\<open>Error: binary must be <= 11 bits.\<close>,
  \<^verbatim>\<open>Error: binary out of range (0-2047).\<close> and
  \<^verbatim>\<open>Error: '...' is neither a valid word nor a valid binary.\<close>
\<close>

datatype line =
    LineBinary string
  | LineIndex int
  | LineWord string
  | ErrTooManyBits
  | ErrOutOfRange
  | ErrNeither string

text \<open>
  The scan \<^verbatim>\<open>for i, w := range wordList\<close> returns at the first word equal to the
  input.
\<close>

fun findWord :: "nat \<Rightarrow> string list \<Rightarrow> string \<Rightarrow> nat option" where
  "findWord i [] input = None"
| "findWord i (w # ws) input = (if w = input then Some i else findWord (Suc i) ws input)"

definition showWordInfo :: "string \<Rightarrow> string list \<Rightarrow> line list \<times> failure option" where
  "showWordInfo input0 wordList =
     (let input = trimSpace (toLower input0) in
      if isBinary input then
        (let input = (if length input < 11 then zeroPad 11 input else input) in
         if length input \<noteq> 11 then ([ErrTooManyBits], None)
         else
           (let idx = binaryToInt input in
            if sint idx < 0 \<or> 2048 \<le> sint idx then ([ErrOutOfRange], None)
            else if nat (sint idx) < length wordList
              then ([LineBinary input, LineIndex (sint idx),
                     LineWord (wordList ! nat (sint idx))], None)
              else ([LineBinary input, LineIndex (sint idx)], Some IndexOutOfRange)))
      else
        (case findWord 0 wordList input of
           Some i \<Rightarrow> ([LineWord input, LineIndex (int i), LineBinary (fmt_011b i)], None)
         | None \<Rightarrow> ([ErrNeither input], None)))"

text \<open>
  The word list is the embedded file \<^verbatim>\<open>embed/english.txt\<close>, which is not among the
  sources; it is a parameter of every function that uses it. \<^verbatim>\<open>main\<close> refuses a list
  whose length is not 2048, and \<^verbatim>\<open>loadWordList\<close> trims every word and drops the empty
  ones. The BIP-39 English words are distinct and made of the letters a to z.
\<close>

definition lowerWord :: "string \<Rightarrow> bool" where
  "lowerWord w = (w \<noteq> [] \<and> list_all (\<lambda>c. c \<in> set ''abcdefghijklmnopqrstuvwxyz'') w)"

definition wellFormedWordList :: "string list \<Rightarrow> bool" where
  "wellFormedWordList wordList =
     (length wordList = 2048 \<and> distinct wordList \<and> list_all lowerWord wordList)"

text \<open>
  A word list of the required shape, for evaluating the functions: word \<open>i\<close> is
  \<open>i + 1\<close> letters \<open>a\<close>.
\<close>

definition sampleWordList :: "string list" where
  "sampleWordList = map (\<lambda>i. replicate (Suc i) CHR ''a'') [0..<2048]"

section \<open>Reference values\<close>

text \<open>
  The big-endian unsigned value of a bit group, as a natural number: what \<open>bitsToInt\<close>
  and \<open>binaryToInt\<close> are compared with.
\<close>

primrec natOfBits :: "nat \<Rightarrow> bool list \<Rightarrow> nat" where
  "natOfBits n [] = n"
| "natOfBits n (b # bits) = natOfBits (2 * n + of_bool b) bits"

text \<open>
  The bits a text holds: one bit per character \<^verbatim>\<open>'0'\<close> or \<^verbatim>\<open>'1'\<close>, in order, every
  other character skipped.
\<close>

definition fileBits :: "string \<Rightarrow> bool list" where
  "fileBits s = map (\<lambda>c. c = CHR ''1'') (filter (\<lambda>c. c = CHR ''0'' \<or> c = CHR ''1'') s)"

text \<open>
  The persisted encoding as the specification words it: the digits in bit order, a space
  after every group of 11 digits, a newline after every 6 groups, and a final newline
  when the last line is partial, that is when digits follow the last newline.
\<close>

primrec layoutFrom :: "nat \<Rightarrow> bool list \<Rightarrow> string" where
  "layoutFrom i [] = []"
| "layoutFrom i (b # bits) =
     (if b then CHR ''1'' else CHR ''0'') #
     (if (i + 1) mod 11 = 0 then '' '' else []) @
     (if (i + 1) mod 66 = 0 then [LF] else []) @ layoutFrom (i + 1) bits"

definition specText :: "bool list \<Rightarrow> string" where
  "specText bits = layoutFrom 0 bits @ (if length bits mod 66 \<noteq> 0 then [LF] else [])"

declare blocks256.simps [simp del]

section \<open>Properties of the bit codec\<close>

lemma testbit: "(drop_bit i (w::byte) AND 1 = 1) = bit w i"
  by (simp add: and_one_eq bit_iff_odd_drop_bit odd_iff_mod_2_eq_one)

lemma length_byteBits: "length (byteBits w) = 8"
  by (simp add: byteBits_def)

lemma nth_byteBits: "p < 8 \<Longrightarrow> byteBits w ! p = bit w (7 - p)"
  by (simp add: byteBits_def testbit rev_nth)

lemma length_bytesToBits: "length (bytesToBits B) = 8 * length B"
  by (induction B) (simp_all add: length_byteBits)

lemma nth_bytesToBits:
  "p < 8 * length B \<Longrightarrow> bytesToBits B ! p = bit (B ! (p div 8)) (7 - p mod 8)"
proof (induction B arbitrary: p)
  case Nil
  then show ?case by simp
next
  case (Cons w B)
  show ?case
  proof (cases "p < 8")
    case True
    then show ?thesis by (simp add: nth_append length_byteBits nth_byteBits)
  next
    case False
    then obtain q where q: "p = q + 8" by (metis add.commute le_add_diff_inverse not_less)
    with Cons.prems have "q < 8 * length B" by simp
    moreover have "(q + 8) div 8 = Suc (q div 8)" "(q + 8) mod 8 = q mod 8" by simp_all
    ultimately show ?thesis
      using Cons.IH [of q] by (simp add: q nth_append length_byteBits)
  qed
qed

lemma ex_less_Suc_shift:
  "(\<exists>p < Suc n. P p) \<longleftrightarrow> P 0 \<or> (\<exists>p < n. P (Suc p))"
  by (auto simp add: less_Suc_eq_0_disj)

lemma length_bitsToBytes_loop: "length (bitsToBytes_loop i bits out) = length out"
  by (induction i bits out rule: bitsToBytes_loop.induct) simp_all

lemma length_bitsToBytes: "length (bitsToBytes bits) = (length bits + 7) div 8"
  by (simp add: bitsToBytes_def length_bitsToBytes_loop)

text \<open>
  What the packing loop leaves in bit \<open>m\<close> of byte \<open>j\<close>: what was there, or a set input
  bit whose position \<open>i + p\<close> falls on that byte and that bit.
\<close>

lemma bit_bitsToBytes_loop:
  "j < length out \<Longrightarrow> m < 8 \<Longrightarrow> (i + length bits + 7) div 8 \<le> length out \<Longrightarrow>
   bit (bitsToBytes_loop i bits out ! j) m \<longleftrightarrow>
     bit (out ! j) m \<or> (\<exists>p < length bits. bits ! p \<and> (i + p) div 8 = j \<and> 7 - (i + p) mod 8 = m)"
proof (induction i bits out rule: bitsToBytes_loop.induct)
  case (1 i out)
  then show ?case by simp
next
  case (2 i b bits out)
  let ?out' = "if b then out[i div 8 := (out ! (i div 8)) OR push_bit (7 - i mod 8) 1] else out"
  have len: "length ?out' = length out" by simp
  have k: "i div 8 < length out" using "2.prems"(3) by simp
  have hd: "bit (?out' ! j) m \<longleftrightarrow> bit (out ! j) m \<or> (b \<and> i div 8 = j \<and> 7 - i mod 8 = m)"
    using "2.prems"(1,2) k
    by (auto simp add: nth_list_update bit_or_iff bit_exp_iff)
  have "bit (bitsToBytes_loop (Suc i) bits ?out' ! j) m \<longleftrightarrow>
      bit (?out' ! j) m \<or> (\<exists>p < length bits. bits ! p \<and> (Suc i + p) div 8 = j \<and> 7 - (Suc i + p) mod 8 = m)"
    using "2.prems" by (intro "2.IH") (simp_all only: len, simp_all)
  also have "\<dots> \<longleftrightarrow> bit (out ! j) m \<or>
      (\<exists>p < length (b # bits). (b # bits) ! p \<and> (i + p) div 8 = j \<and> 7 - (i + p) mod 8 = m)"
    unfolding hd
  proof -
    have "(\<exists>p < length (b # bits). (b # bits) ! p \<and> (i + p) div 8 = j \<and> 7 - (i + p) mod 8 = m)
      \<longleftrightarrow> (b \<and> i div 8 = j \<and> 7 - i mod 8 = m) \<or>
         (\<exists>p < length bits. bits ! p \<and> (Suc i + p) div 8 = j \<and> 7 - (Suc i + p) mod 8 = m)"
      by (simp add: ex_less_Suc_shift)
    then show "((bit (out ! j) m \<or> b \<and> i div 8 = j \<and> 7 - i mod 8 = m) \<or>
     (\<exists>p<length bits. bits ! p \<and> (Suc i + p) div 8 = j \<and> 7 - (Suc i + p) mod 8 = m)) =
    (bit (out ! j) m \<or>
     (\<exists>p<length (b # bits). (b # bits) ! p \<and> (i + p) div 8 = j \<and> 7 - (i + p) mod 8 = m))"
      by blast
  qed
  finally show ?case by simp
qed

lemma pos_facts:
  assumes j: "j < length (B::byte list)" and m: "m < 8"
  shows "8 * j + (7 - m) < 8 * length B" "(8 * j + (7 - m)) div 8 = j" "7 - (8 * j + (7 - m)) mod 8 = m"
proof -
  have r: "7 - m < 8" by simp
  show "8 * j + (7 - m) < 8 * length B" using j r by linarith
  show "(8 * j + (7 - m)) div 8 = j" using r by simp
  have "(8 * j + (7 - m)) mod 8 = 7 - m" using r by simp
  then show "7 - (8 * j + (7 - m)) mod 8 = m" using m by linarith
qed

text \<open>
  C1. For every byte buffer \<open>B\<close>, packing the bits that \<open>bytesToBits\<close> expands from \<open>B\<close>
  gives \<open>B\<close> back: \<open>bitsToBytes (bytesToBits B) = B\<close>.
\<close>

theorem bitsToBytes_bytesToBits: "bitsToBytes (bytesToBits B) = B"
proof (rule nth_equalityI)
  show len: "length (bitsToBytes (bytesToBits B)) = length B"
    by (simp add: length_bitsToBytes length_bytesToBits)
  fix j assume "j < length (bitsToBytes (bytesToBits B))"
  with len have j: "j < length B" by simp
  show "bitsToBytes (bytesToBits B) ! j = B ! j"
  proof (rule bit_word_eqI)
    fix m assume "m < LENGTH(8)"
    then have m: "m < 8" by simp
    let ?bits = "bytesToBits B"
    let ?out = "replicate ((length ?bits + 7) div 8) (0::byte)"
    let ?P = "\<lambda>p. bit (B ! (p div 8)) (7 - p mod 8) \<and> p div 8 = j \<and> 7 - p mod 8 = m"
    have "bit (bitsToBytes_loop 0 ?bits ?out ! j) m \<longleftrightarrow>
        bit (?out ! j) m \<or> (\<exists>p < length ?bits. ?bits ! p \<and> (0 + p) div 8 = j \<and> 7 - (0 + p) mod 8 = m)"
      using j m by (intro bit_bitsToBytes_loop) (simp_all add: length_bytesToBits)
    also have "\<dots> \<longleftrightarrow> (\<exists>p < 8 * length B. ?P p)"
      using j by (auto simp add: length_bytesToBits nth_bytesToBits)
    also have "\<dots> \<longleftrightarrow> bit (B ! j) m"
    proof
      assume "\<exists>p < 8 * length B. ?P p"
      then show "bit (B ! j) m" by auto
    next
      assume b: "bit (B ! j) m"
      let ?p = "8 * j + (7 - m)"
      note f = pos_facts [OF j m]
      have "bit (B ! (?p div 8)) (7 - ?p mod 8)"
        using b by (simp only: f)
      with f have "?p < 8 * length B \<and> ?P ?p"
        by (intro conjI)
      then show "\<exists>p < 8 * length B. ?P p" ..
    qed
    finally show "bit (bitsToBytes (bytesToBits B) ! j) m = bit (B ! j) m"
      by (simp add: bitsToBytes_def)
  qed
qed

section \<open>Bit groups as integers\<close>

lemma natOfBits_ge: "n \<le> natOfBits n bits"
proof (induction bits arbitrary: n)
  case Nil
  show ?case by simp
next
  case (Cons b bits)
  have "n \<le> 2 * n + of_bool b" by simp
  also have "\<dots> \<le> natOfBits (2 * n + of_bool b) bits" by (rule Cons.IH)
  finally show ?case by simp
qed

lemma natOfBits_less: "n < 2 ^ k \<Longrightarrow> natOfBits n bits < 2 ^ (k + length bits)"
proof (induction bits arbitrary: n k)
  case Nil
  then show ?case by simp
next
  case (Cons b bits)
  from Cons.prems have "2 * n + of_bool b < 2 ^ Suc k" by (cases b) simp_all
  from Cons.IH [OF this] show ?case by simp
qed

lemma unat_shift_in:
  fixes n :: go_int
  assumes "2 * unat n + of_bool b < 2 ^ 64"
  shows "unat (if b then push_bit 1 n OR 1 else push_bit 1 n) = 2 * unat n + of_bool b"
proof -
  have m: "unat (2 * n) = 2 * unat n"
    using assms unat_mult_lem [of 2 n] by simp
  have "unat (2 * n + 1) = 2 * unat n + 1" if b
    using assms that m unat_add_lem [of "2 * n" 1] by simp
  then show ?thesis
    using m by (simp add: push_bit_eq_mult or_one_eq mult.commute)
qed

lemma unat_bitsToInt_loop:
  "natOfBits (unat n) bits < 2 ^ 64 \<Longrightarrow> unat (bitsToInt_loop n bits) = natOfBits (unat n) bits"
proof (induction bits arbitrary: n)
  case Nil
  show ?case by simp
next
  case (Cons b bits)
  let ?n' = "if b then push_bit 1 n OR 1 else push_bit 1 n"
  have "2 * unat n + of_bool b \<le> natOfBits (2 * unat n + of_bool b) bits"
    by (rule natOfBits_ge)
  with Cons.prems have "2 * unat n + of_bool b < 2 ^ 64" by simp
  then have u: "unat ?n' = 2 * unat n + of_bool b" by (rule unat_shift_in)
  with Cons.prems have "natOfBits (unat ?n') bits < 2 ^ 64" by simp
  from Cons.IH [OF this] u show ?case by simp
qed

lemma unat_bitsToInt:
  assumes "length bits \<le> 63"
  shows "unat (bitsToInt bits) = natOfBits 0 bits" "natOfBits 0 bits < 2 ^ length bits"
proof -
  show b: "natOfBits 0 bits < 2 ^ length bits"
    using natOfBits_less [of 0 0 bits] by simp
  also have "(2::nat) ^ length bits \<le> 2 ^ 63" using assms by (intro power_increasing) simp_all
  finally have "natOfBits (unat (0::go_int)) bits < 2 ^ 64" by simp
  then show "unat (bitsToInt bits) = natOfBits 0 bits"
    unfolding bitsToInt_def using unat_bitsToInt_loop [of 0 bits] by simp
qed

lemma sint_small:
  fixes w :: go_int
  assumes "unat w < 2048"
  shows "sint w = int (unat w)"
proof -
  have u: "uint w = int (unat w)" by simp
  have "uint w < 2048" using assms unfolding u by linarith
  moreover have "(2048::int) \<le> 2 ^ 63" by simp
  ultimately have "uint w < 2 ^ 63" by (rule less_le_trans)
  moreover have "- (2 ^ 63) \<le> uint w"
  proof -
    have "- (2 ^ 63) \<le> (0::int)" by simp
    also have "0 \<le> uint w" by simp
    finally show ?thesis .
  qed
  ultimately have "signed_take_bit 63 (uint w) = uint w"
    by (rule signed_take_bit_int_eq_self [rotated])
  then have "sint w = uint w" by (simp add: sint_uint)
  with u show ?thesis by (simp only:)
qed

lemma sint_bitsToInt:
  assumes "length bits \<le> 11"
  shows "0 \<le> sint (bitsToInt bits)" "sint (bitsToInt bits) \<le> 2047"
    "nat (sint (bitsToInt bits)) = natOfBits 0 bits" "natOfBits 0 bits < 2048"
proof -
  from assms have l: "length bits \<le> 63" by simp
  have "natOfBits 0 bits < 2 ^ length bits" by (rule unat_bitsToInt(2) [OF l])
  also have "(2::nat) ^ length bits \<le> 2 ^ 11" using assms by (intro power_increasing) simp_all
  finally show v: "natOfBits 0 bits < 2048" by simp
  have u: "unat (bitsToInt bits) = natOfBits 0 bits" by (rule unat_bitsToInt(1) [OF l])
  with v have "unat (bitsToInt bits) < 2048" by simp
  then have s: "sint (bitsToInt bits) = int (natOfBits 0 bits)" using u by (simp add: sint_small)
  show "0 \<le> sint (bitsToInt bits)" "sint (bitsToInt bits) \<le> 2047"
    "nat (sint (bitsToInt bits)) = natOfBits 0 bits"
    using s v by simp_all
qed

section \<open>The mnemonic of a bit sequence\<close>

lemma slice_group:
  "(i + 1) * 11 \<le> length bits \<Longrightarrow>
   go_slice bits (i * 11) ((i + 1) * 11) = Inr (take 11 (drop (i * 11) bits))"
  by (simp add: go_slice_def)

lemma generateMnemonic_loop_ok:
  assumes "2048 \<le> length wordList" "\<forall>i \<in> set is. (i + 1) * 11 \<le> length bits"
  shows "generateMnemonic_loop is bits wordList words =
     Inr (words @ map (\<lambda>i. wordList ! nat (sint (bitsToInt (take 11 (drop (i * 11) bits))))) is)"
  using assms(2)
proof (induction "is" arbitrary: words)
  case Nil
  show ?case by simp
next
  case (Cons i "is")
  let ?g = "take 11 (drop (i * 11) bits)"
  have s: "go_slice bits (i * 11) ((i + 1) * 11) = Inr ?g"
    using Cons.prems by (intro slice_group) simp
  have l: "length ?g \<le> 11" by simp
  have "nat (sint (bitsToInt ?g)) < 2048"
    using sint_bitsToInt(3,4) [OF l] by simp
  with assms(1) have r: "0 \<le> sint (bitsToInt ?g) \<and> nat (sint (bitsToInt ?g)) < length wordList"
    using sint_bitsToInt(1) [OF l] by simp
  have "generateMnemonic_loop (i # is) bits wordList words =
      generateMnemonic_loop is bits wordList (words @ [wordList ! nat (sint (bitsToInt ?g))])"
    unfolding generateMnemonic_loop.simps s using r by (simp add: Let_def)
  also have "\<dots> = Inr ((words @ [wordList ! nat (sint (bitsToInt ?g))]) @
      map (\<lambda>i. wordList ! nat (sint (bitsToInt (take 11 (drop (i * 11) bits))))) is)"
    using Cons.prems by (intro Cons.IH) simp
  finally show ?case by simp
qed

lemma generateMnemonic_ok:
  assumes "2048 \<le> length wordList"
  shows "generateMnemonic bits wordList =
     Inr (strings_Join
       (map (\<lambda>i. wordList ! nat (sint (bitsToInt (take 11 (drop (i * 11) bits)))))
         [0..<length bits div 11]) '' '')"
proof -
  have "\<forall>i \<in> set [0..<length bits div 11]. (i + 1) * 11 \<le> length bits"
  proof
    fix i assume "i \<in> set [0..<length bits div 11]"
    then have "i + 1 \<le> length bits div 11" by simp
    then have "(i + 1) * 11 \<le> (length bits div 11) * 11" by (rule mult_le_mono1)
    also have "\<dots> \<le> length bits" by simp
    finally show "(i + 1) * 11 \<le> length bits" .
  qed
  from generateMnemonic_loop_ok [OF assms this, of "[]"] show ?thesis
    by (simp add: generateMnemonic_def)
qed

lemma length_sampleWordList: "length sampleWordList = 2048"
  by (simp add: sampleWordList_def)

lemma nth_sampleWordList: "i < 2048 \<Longrightarrow> sampleWordList ! i = replicate (Suc i) CHR ''a''"
  by (simp add: sampleWordList_def)

text \<open>
  C9. For every bit sequence whose length is a multiple of 11, each of its consecutive
  11-bit groups is converted by \<open>bitsToInt\<close> to an integer between 0 and 2047, so with a
  word list of 2048 entries no lookup of \<open>generateMnemonic\<close> is out of bounds: it returns
  the words of the groups, joined by spaces.
\<close>

theorem group_lookups_in_bounds:
  assumes "length bits mod 11 = 0" and "length wordList = 2048"
  shows "(\<forall>i < length bits div 11.
            0 \<le> sint (bitsToInt (take 11 (drop (i * 11) bits))) \<and>
            sint (bitsToInt (take 11 (drop (i * 11) bits))) \<le> 2047 \<and>
            length (take 11 (drop (i * 11) bits)) = 11) \<and>
         generateMnemonic bits wordList =
           Inr (strings_Join
             (map (\<lambda>i. wordList ! nat (sint (bitsToInt (take 11 (drop (i * 11) bits)))))
               [0..<length bits div 11]) '' '')"
proof (intro conjI allI impI)
  fix i assume i: "i < length bits div 11"
  let ?g = "take 11 (drop (i * 11) bits)"
  have l: "length ?g \<le> 11" by simp
  show "0 \<le> sint (bitsToInt ?g)" by (rule sint_bitsToInt(1) [OF l])
  show "sint (bitsToInt ?g) \<le> 2047" by (rule sint_bitsToInt(2) [OF l])
  from i have "i + 1 \<le> length bits div 11" by simp
  then have "(i + 1) * 11 \<le> (length bits div 11) * 11" by (rule mult_le_mono1)
  also have "\<dots> \<le> length bits" by simp
  finally show "length ?g = 11" by simp
next
  show "generateMnemonic bits wordList =
           Inr (strings_Join
             (map (\<lambda>i. wordList ! nat (sint (bitsToInt (take 11 (drop (i * 11) bits)))))
               [0..<length bits div 11]) '' '')"
    using assms(2) by (intro generateMnemonic_ok) simp
qed

theorem group_lookups_in_bounds_witness:
  "length (replicate 10 False @ [True] @ replicate 9 False @ [True, True]) mod 11 = 0 \<and>
   length sampleWordList = 2048 \<and>
   generateMnemonic (replicate 10 False @ [True] @ replicate 9 False @ [True, True]) sampleWordList
     = Inr ''aa aaaa''"
proof -
  let ?bits = "replicate 10 False @ [True] @ replicate 9 False @ [True, True]"
  have h: "length ?bits mod 11 = 0" by simp
  have eq: "?bits = [False, False, False, False, False, False, False, False, False, False, True,
     False, False, False, False, False, False, False, False, False, True, True]"
    by (simp add: numeral_eq_Suc)
  have v: "nat (sint (bitsToInt (take 11 (drop (0 * 11) ?bits)))) = 1"
      "nat (sint (bitsToInt (take 11 (drop (1 * 11) ?bits)))) = 3"
    unfolding eq by (simp_all add: sint_bitsToInt(3))
  have u: "[0..<length ?bits div 11] = [0, 1]" by (simp add: upt_rec)
  from group_lookups_in_bounds [OF h length_sampleWordList]
  have "generateMnemonic ?bits sampleWordList =
      Inr (strings_Join
             (map (\<lambda>i. sampleWordList ! nat (sint (bitsToInt (take 11 (drop (i * 11) ?bits)))))
               [0..<length ?bits div 11]) '' '')" by blast
  also have "\<dots> = Inr ''aa aaaa''"
    unfolding u using v by (simp add: nth_sampleWordList numeral_eq_Suc)
  finally show ?thesis using h length_sampleWordList by blast
qed

section \<open>Reading the entropy file\<close>

lemma fileBits_Nil: "fileBits [] = []"
  by (simp add: fileBits_def)

lemma fileBits_append: "fileBits (a @ b) = fileBits a @ fileBits b"
  by (simp add: fileBits_def)

lemma fileBits_Cons:
  "fileBits (c # cs) =
     (if c = CHR ''0'' then False # fileBits cs
      else if c = CHR ''1'' then True # fileBits cs else fileBits cs)"
  by (simp add: fileBits_def)

lemma lineBits_fileBits: "lineBits bits l = bits @ fileBits l"
  by (induction l arbitrary: bits) (simp_all add: fileBits_Nil fileBits_Cons)

lemma fileBits_dropCR: "fileBits (dropCR l) = fileBits l"
proof (cases "l \<noteq> [] \<and> last l = CR")
  case True
  then have "l = butlast l @ [CR]" by (metis append_butlast_last_id)
  then have "fileBits l = fileBits (butlast l) @ fileBits [CR]"
    by (metis fileBits_append)
  with True show ?thesis by (simp add: dropCR_def fileBits_def)
next
  case False
  then show ?thesis by (auto simp add: dropCR_def)
qed

lemma scanLoop_ok:
  "\<forall>l \<in> set ls. length l < maxScanTokenSize \<Longrightarrow>
   scanLoop ls bits = (bits @ concat (map fileBits ls), None)"
  by (induction ls arbitrary: bits) (simp_all add: lineBits_fileBits fileBits_dropCR)

lemma concat_fileBits_rawLines:
  "concat (map fileBits (rawLines cur data)) = fileBits (cur @ data)"
proof (induction data arbitrary: cur)
  case Nil
  show ?case by (simp add: fileBits_Nil)
next
  case (Cons c cs)
  show ?case
  proof (cases "c = LF")
    case True
    then show ?thesis
      using Cons.IH [of "[]"] by (simp add: fileBits_append fileBits_Cons)
  next
    case False
    then show ?thesis using Cons.IH [of "cur @ [c]"] by simp
  qed
qed

lemma readBinaryFile_ok:
  assumes "\<forall>l \<in> set (rawLines [] data). length l < maxScanTokenSize"
  shows "readBinaryFile (Content data) = (fileBits data, None)"
  using scanLoop_ok [OF assms, of "[]"] concat_fileBits_rawLines [of "[]" data]
  by (simp add: readBinaryFile_def)

lemma rawLines_length:
  "l \<in> set (rawLines cur data) \<Longrightarrow> length l \<le> length cur + length data"
proof (induction data arbitrary: cur)
  case Nil
  then show ?case by (simp split: if_splits)
next
  case (Cons c cs)
  show ?case
  proof (cases "c = LF")
    case True
    with Cons.prems have "l = cur \<or> l \<in> set (rawLines [] cs)" by simp
    then show ?thesis using Cons.IH [of "[]"] by auto
  next
    case False
    with Cons.prems have "l \<in> set (rawLines (cur @ [c]) cs)" by simp
    from Cons.IH [OF this] show ?thesis by simp
  qed
qed

lemma small_file_lines:
  assumes "length data < maxScanTokenSize"
  shows "\<forall>l \<in> set (rawLines [] data). length l < maxScanTokenSize"
proof
  fix l assume "l \<in> set (rawLines [] data)"
  from rawLines_length [OF this] assms show "length l < maxScanTokenSize" by simp
qed

lemma rawLines_no_newline:
  "LF \<notin> set s \<Longrightarrow> rawLines cur s = (if cur @ s = [] then [] else [cur @ s])"
  by (induction s arbitrary: cur) auto

lemma fileBits_replicate_one: "fileBits (replicate n CHR ''1'') = replicate n True"
  by (induction n) (simp_all add: fileBits_Nil fileBits_Cons)

lemma fileBits_replicate_zero: "fileBits (replicate n CHR ''0'') = replicate n False"
  by (induction n) (simp_all add: fileBits_Nil fileBits_Cons)

lemma fileBits_no_digit:
  "\<forall>c \<in> set s. c \<noteq> CHR ''0'' \<and> c \<noteq> CHR ''1'' \<Longrightarrow> fileBits s = []"
  by (induction s) (simp_all add: fileBits_Nil fileBits_Cons)

text \<open>
  A line of 65536 bytes or more ends the scan with the scanner's error, whatever
  follows it.
\<close>

lemma scanLoop_too_long:
  "\<exists>l \<in> set ls. maxScanTokenSize \<le> length l \<Longrightarrow> snd (scanLoop ls bits) = Some ErrTooLong"
proof (induction ls arbitrary: bits)
  case Nil
  then show ?case by simp
next
  case (Cons l ls)
  show ?case
  proof (cases "maxScanTokenSize \<le> length l")
    case True
    then show ?thesis by simp
  next
    case False
    with Cons.prems have "\<exists>l \<in> set ls. maxScanTokenSize \<le> length l" by simp
    from Cons.IH [OF this] False show ?thesis by simp
  qed
qed

lemma readBinaryFile_too_long:
  "\<exists>l \<in> set (rawLines [] data). maxScanTokenSize \<le> length l \<Longrightarrow>
   snd (readBinaryFile (Content data)) = Some ErrTooLong"
  by (simp add: readBinaryFile_def scanLoop_too_long)

section \<open>The checksum\<close>

lemma length_digest_bytes: "length (digest_bytes d) = 32"
  by (induction d rule: digest_bytes.induct) (simp add: be_bytes_def)

lemma length_sum256: "length (sum256 m) = 32"
  by (simp add: sum256_def length_digest_bytes)

lemma checksumBits_ok:
  "length bits div 32 \<le> 256 \<Longrightarrow>
   checksumBits bits = Inr (take (length bits div 32) (bytesToBits (sum256 (bitsToBytes bits))))"
  by (simp add: checksumBits_def go_slice_def length_bytesToBits length_sum256)

lemma checksumBits_panic:
  "256 < length bits div 32 \<Longrightarrow> checksumBits bits = Inl SliceBoundsOutOfRange"
  by (simp add: checksumBits_def go_slice_def length_bytesToBits length_sum256)

lemma length_checksum:
  "length bits div 32 \<le> 256 \<Longrightarrow>
   length (take (length bits div 32) (bytesToBits (sum256 (bitsToBytes bits)))) = length bits div 32"
  by (simp add: length_bytesToBits length_sum256)

lemma length_take_le: "length (take n xs) \<le> n"
  by simp

text \<open>
  C2. For every entropy bit sequence whose length is a positive multiple of 32 and at most
  8192, the checksum is the first \<open>length bits div 32\<close> bits of the SHA-256 hash of the
  bytes packed from the bits. For 256 entropy bits the checksum has 8 bits, the combined
  sequence 264 bits, and the mnemonic 24 words of the word list.
\<close>

theorem checksum_is_hash_prefix:
  assumes "0 < length bits" and "length bits mod 32 = 0" and "length bits \<le> 8192"
  shows "\<exists>cs. checksumBits bits = Inr cs \<and>
           cs = take (length bits div 32) (bytesToBits (sum256 (bitsToBytes bits))) \<and>
           length cs = length bits div 32 \<and>
           (length bits = 256 \<longrightarrow> length wordList = 2048 \<longrightarrow>
              length cs = 8 \<and> length (bits @ cs) = 264 \<and>
              (\<exists>ws. length ws = 24 \<and> set ws \<subseteq> set wordList \<and>
                    generateMnemonic (bits @ cs) wordList = Inr (strings_Join ws '' '')))"
proof -
  let ?cs = "take (length bits div 32) (bytesToBits (sum256 (bitsToBytes bits)))"
  from assms(3) have le: "length bits div 32 \<le> 256" by simp
  have c: "checksumBits bits = Inr ?cs" by (rule checksumBits_ok [OF le])
  have l: "length ?cs = length bits div 32" by (rule length_checksum [OF le])
  have m: "length ?cs = 8 \<and> length (bits @ ?cs) = 264 \<and>
      (\<exists>ws. length ws = 24 \<and> set ws \<subseteq> set wordList \<and>
         generateMnemonic (bits @ ?cs) wordList = Inr (strings_Join ws '' ''))"
    if n: "length bits = 256" and w: "length wordList = 2048"
  proof -
    let ?all = "bits @ ?cs"
    let ?ws = "map (\<lambda>i. wordList ! nat (sint (bitsToInt (take 11 (drop (i * 11) ?all)))))
      [0..<length ?all div 11]"
    have l8: "length ?cs = 8" using l n by simp
    then have la: "length ?all = 264" using n by simp
    have g: "generateMnemonic ?all wordList = Inr (strings_Join ?ws '' '')"
      using w by (intro generateMnemonic_ok) simp
    have "length ?ws = 24" using la by simp
    moreover have "set ?ws \<subseteq> set wordList"
    proof
      fix x assume "x \<in> set ?ws"
      then obtain i where x: "x = wordList ! nat (sint (bitsToInt (take 11 (drop (i * 11) ?all))))"
        by auto
      have "length (take 11 (drop (i * 11) ?all)) \<le> 11" by (rule length_take_le)
      from sint_bitsToInt(3,4) [OF this]
      have "nat (sint (bitsToInt (take 11 (drop (i * 11) ?all)))) < length wordList"
        using w by simp
      then show "x \<in> set wordList" unfolding x by (rule nth_mem)
    qed
    ultimately show ?thesis using l8 la g by blast
  qed
  from c l m show ?thesis by blast
qed

theorem checksum_is_hash_prefix_witness:
  "0 < length (replicate 256 False) \<and> length (replicate 256 False) mod 32 = 0 \<and>
   length (replicate 256 False) \<le> 8192 \<and> length sampleWordList = 2048 \<and>
   (\<exists>cs. checksumBits (replicate 256 False) = Inr cs \<and> length cs = 8 \<and>
      (\<exists>ws. length ws = 24 \<and>
         generateMnemonic (replicate 256 False @ cs) sampleWordList = Inr (strings_Join ws '' '')))"
proof -
  have h: "0 < length (replicate 256 False)" "length (replicate 256 False) mod 32 = 0"
    "length (replicate 256 False) \<le> 8192" "length (replicate 256 False) = 256"
    by simp_all
  from checksum_is_hash_prefix [OF h(1,2,3), of sampleWordList] h length_sampleWordList
  show ?thesis by blast
qed

text \<open>
  The bound of C2 is needed: the hash has 256 bits, and with 8224 entropy bits the slice
  \<^verbatim>\<open>[:257]\<close> of its bits panics.
\<close>

theorem checksum_beyond_hash_counterexample:
  "0 < length (replicate 8224 False) \<and> length (replicate 8224 False) mod 32 = 0 \<and>
   checksumBits (replicate 8224 False) = Inl SliceBoundsOutOfRange"
proof -
  have "256 < length (replicate 8224 False) div 32" by simp
  then have "checksumBits (replicate 8224 False) = Inl SliceBoundsOutOfRange"
    by (rule checksumBits_panic)
  then show ?thesis by simp
qed

section \<open>The derivation pipeline\<close>

lemma readBinaryFile_NotExist: "readBinaryFile NotExist = ([], Some ErrNotExist)"
  by (simp add: readBinaryFile_def)

lemma generatePassphraseFromBinary_store:
  "snd (generatePassphraseFromBinary wordList f) = f"
  by (simp add: generatePassphraseFromBinary_def split: prod.splits option.splits sum.splits)

lemma generatePassphraseFromBinary_read:
  assumes "readBinaryFile f = (bits, None)"
  shows "generatePassphraseFromBinary wordList f =
     (case checksumBits bits of
        Inl p \<Rightarrow> (Inl p, f)
      | Inr csBits \<Rightarrow> (generateMnemonic (bits @ csBits) wordList, f))"
proof -
  have "f \<noteq> NotExist" using assms by (auto simp add: readBinaryFile_NotExist)
  then show ?thesis by (simp add: generatePassphraseFromBinary_def assms)
qed

lemma generateMnemonic_Nil: "generateMnemonic [] wordList = Inr []"
  by (simp add: generateMnemonic_def)

lemma checksumBits_Nil: "checksumBits [] = Inr []"
  by (simp add: checksumBits_def go_slice_def)

text \<open>
  C10. For every bit sequence loaded without error whose length \<open>n\<close> is below 8224 (so
  that \<open>n div 32\<close> is at most 256), and a word list of 2048 entries, the derivation
  completes: the checksum has \<open>n div 32\<close> bits and the mnemonic is the
  \<open>(n + n div 32) div 11\<close> words of the full 11-bit groups of the combined sequence; the
  bits after the last full group do not enter it.
\<close>

theorem derivation_completes:
  assumes "readBinaryFile f = (bits, None)" and "length bits div 32 \<le> 256"
    and "length wordList = 2048"
  shows "\<exists>cs. checksumBits bits = Inr cs \<and> length cs = length bits div 32 \<and>
           generatePassphraseFromBinary wordList f =
             (Inr (strings_Join
                (map (\<lambda>i. wordList ! nat (sint (bitsToInt (take 11 (drop (i * 11) (bits @ cs))))))
                   [0..<(length bits + length bits div 32) div 11]) '' ''), f)"
proof -
  let ?cs = "take (length bits div 32) (bytesToBits (sum256 (bitsToBytes bits)))"
  have c: "checksumBits bits = Inr ?cs" by (rule checksumBits_ok [OF assms(2)])
  have l: "length ?cs = length bits div 32" by (rule length_checksum [OF assms(2)])
  have w: "2048 \<le> length wordList" using assms(3) by simp
  have "generatePassphraseFromBinary wordList f = (generateMnemonic (bits @ ?cs) wordList, f)"
    by (simp only: generatePassphraseFromBinary_read [OF assms(1)] c sum.case)
  also have "generateMnemonic (bits @ ?cs) wordList =
      Inr (strings_Join
        (map (\<lambda>i. wordList ! nat (sint (bitsToInt (take 11 (drop (i * 11) (bits @ ?cs))))))
           [0..<length (bits @ ?cs) div 11]) '' '')"
    by (rule generateMnemonic_ok [OF w])
  also have "length (bits @ ?cs) = length bits + length bits div 32"
    using l by (simp only: length_append)
  finally show ?thesis using c l by blast
qed

theorem derivation_completes_witness:
  "readBinaryFile (Content ''0000000001011'') =
     ([False, False, False, False, False, False, False, False, False, True, False, True, True], None) \<and>
   length sampleWordList = 2048 \<and>
   generatePassphraseFromBinary sampleWordList (Content ''0000000001011'') =
     (Inr ''aaa'', Content ''0000000001011'')"
proof -
  let ?bits = "[False, False, False, False, False, False, False, False, False, True, False, True, True]"
  have "\<forall>l \<in> set (rawLines [] ''0000000001011''). length l < maxScanTokenSize"
    by (rule small_file_lines) (simp add: maxScanTokenSize_def)
  then have r: "readBinaryFile (Content ''0000000001011'') = (?bits, None)"
    by (simp add: readBinaryFile_ok fileBits_def)
  have d: "length ?bits div 32 \<le> 256" by simp
  from derivation_completes [OF r d length_sampleWordList]
  obtain cs where cs: "length cs = length ?bits div 32"
    and g: "generatePassphraseFromBinary sampleWordList (Content ''0000000001011'') =
             (Inr (strings_Join
                (map (\<lambda>i. sampleWordList ! nat (sint (bitsToInt (take 11 (drop (i * 11) (?bits @ cs))))))
                   [0..<(length ?bits + length ?bits div 32) div 11]) '' ''), Content ''0000000001011'')"
    by blast
  from cs have e: "cs = []" by simp
  have u: "[0..<(length ?bits + length ?bits div 32) div 11] = [0]" by simp
  have v: "nat (sint (bitsToInt (take 11 (drop (0 * 11) (?bits @ [])))))  = 2"
    by (simp add: sint_bitsToInt(3))
  have "generatePassphraseFromBinary sampleWordList (Content ''0000000001011'') =
     (Inr ''aaa'', Content ''0000000001011'')"
    unfolding g e u using v by (simp add: nth_sampleWordList numeral_eq_Suc)
  with r length_sampleWordList show ?thesis by blast
qed

text \<open>
  The bound of C10 is needed: a file of 8224 digits is loaded without error, and the
  derivation panics in the slice of the hash bits.
\<close>

theorem derivation_panics_counterexample:
  "readBinaryFile (Content (replicate 8224 CHR ''1'')) = (replicate 8224 True, None) \<and>
   length sampleWordList = 2048 \<and>
   generatePassphraseFromBinary sampleWordList (Content (replicate 8224 CHR ''1'')) =
     (Inl SliceBoundsOutOfRange, Content (replicate 8224 CHR ''1''))"
proof -
  let ?data = "replicate 8224 CHR ''1''"
  have "\<forall>l \<in> set (rawLines [] ?data). length l < maxScanTokenSize"
    by (rule small_file_lines) (simp add: maxScanTokenSize_def)
  then have r: "readBinaryFile (Content ?data) = (replicate 8224 True, None)"
    by (simp only: readBinaryFile_ok fileBits_replicate_one)
  have "256 < length (replicate 8224 True) div 32" by simp
  then have c: "checksumBits (replicate 8224 True) = Inl SliceBoundsOutOfRange"
    by (rule checksumBits_panic)
  have "generatePassphraseFromBinary sampleWordList (Content ?data) =
      (Inl SliceBoundsOutOfRange, Content ?data)"
    by (simp only: generatePassphraseFromBinary_read [OF r] c sum.case)
  with r length_sampleWordList show ?thesis by blast
qed

text \<open>
  C6. When the file holds no character \<^verbatim>\<open>'0'\<close> or \<^verbatim>\<open>'1'\<close> (and no line of 65536 bytes
  or more), the load returns the empty bit sequence without an error, and the derivation
  goes on to return the empty mnemonic: nothing checks for an empty bit sequence.
\<close>

theorem empty_bits_empty_mnemonic:
  assumes "\<forall>c \<in> set data. c \<noteq> CHR ''0'' \<and> c \<noteq> CHR ''1''"
    and "\<forall>l \<in> set (rawLines [] data). length l < maxScanTokenSize"
  shows "readBinaryFile (Content data) = ([], None) \<and>
         generatePassphraseFromBinary wordList (Content data) = (Inr [], Content data)"
proof -
  have r: "readBinaryFile (Content data) = ([], None)"
    by (simp only: readBinaryFile_ok [OF assms(2)] fileBits_no_digit [OF assms(1)])
  have "generatePassphraseFromBinary wordList (Content data) = (Inr [], Content data)"
    by (simp add: generatePassphraseFromBinary_read [OF r] checksumBits_Nil generateMnemonic_Nil)
  with r show ?thesis by blast
qed

theorem empty_bits_empty_mnemonic_witness:
  "readBinaryFile (Content ''no bits'') = ([], None) \<and>
   generatePassphraseFromBinary sampleWordList (Content ''no bits'') = (Inr [], Content ''no bits'')"
proof -
  have a: "\<forall>c \<in> set ''no bits''. c \<noteq> CHR ''0'' \<and> c \<noteq> CHR ''1''" by simp
  have b: "\<forall>l \<in> set (rawLines [] ''no bits''). length l < maxScanTokenSize"
    by (rule small_file_lines) (simp add: maxScanTokenSize_def)
  from empty_bits_empty_mnemonic [OF a b, of sampleWordList] show ?thesis .
qed

text \<open>
  The claim of C6 as stated fails: on an empty file the derivation reports no error and
  returns the empty mnemonic.
\<close>

theorem empty_file_not_reported_counterexample:
  "readBinaryFile (Content []) = ([], None) \<and>
   fst (generatePassphraseFromBinary sampleWordList (Content [])) = Inr []"
proof -
  have r: "readBinaryFile (Content []) = ([], None)"
    by (simp add: readBinaryFile_def)
  then show ?thesis
    by (simp add: generatePassphraseFromBinary_read [OF r] checksumBits_Nil generateMnemonic_Nil)
qed

text \<open>
  C5. When no line of the persisted file has 65536 bytes or more, the load returns, in
  file order, exactly one bit per character \<^verbatim>\<open>'0'\<close> or \<^verbatim>\<open>'1'\<close> of the file and skips
  every other character. When the file does not exist, the derivation ends with the fatal
  message that tells the caller to generate it first with \<^verbatim>\<open>-b\<close>.
\<close>

theorem load_entropy:
  assumes "\<forall>l \<in> set (rawLines [] data). length l < maxScanTokenSize"
  shows "readBinaryFile (Content data) = (fileBits data, None) \<and>
         generatePassphraseFromBinary wordList NotExist =
           (Inl (Fatal ''Error: binary.txt not found. Please generate it first with -b''), NotExist)"
  using readBinaryFile_ok [OF assms] by (simp add: generatePassphraseFromBinary_def)

theorem load_entropy_witness:
  "readBinaryFile (Content ''01 1x0'') = ([False, True, True, False], None) \<and>
   generatePassphraseFromBinary sampleWordList NotExist =
     (Inl (Fatal ''Error: binary.txt not found. Please generate it first with -b''), NotExist)"
proof -
  have a: "\<forall>l \<in> set (rawLines [] ''01 1x0''). length l < maxScanTokenSize"
    by (rule small_file_lines) (simp add: maxScanTokenSize_def)
  have f: "fileBits ''01 1x0'' = [False, True, True, False]" by (simp add: fileBits_def)
  from load_entropy [OF a, of sampleWordList] show ?thesis unfolding f .
qed

text \<open>
  The claim of C5 without the bound fails: a file that is one line of 65536 digits has
  65536 characters \<^verbatim>\<open>'0'\<close>, and the load returns no bit and the scanner's error, which
  the derivation reports as a read failure.
\<close>

theorem long_line_counterexample:
  "fileBits (replicate 65536 CHR ''0'') = replicate 65536 False \<and>
   readBinaryFile (Content (replicate 65536 CHR ''0'')) = ([], Some ErrTooLong) \<and>
   fst (generatePassphraseFromBinary sampleWordList (Content (replicate 65536 CHR ''0''))) =
     Inl (Fatal ''Error reading binary.txt: bufio.Scanner: token too long'')"
proof -
  let ?data = "replicate 65536 CHR ''0''"
  have "LF \<notin> set ?data" by simp
  then have "rawLines [] ?data = (if [] @ ?data = [] then [] else [[] @ ?data])"
    by (rule rawLines_no_newline)
  moreover have "?data \<noteq> []" by simp
  ultimately have l: "rawLines [] ?data = [?data]" by simp
  have r: "readBinaryFile (Content ?data) = ([], Some ErrTooLong)"
    by (simp add: readBinaryFile_def l maxScanTokenSize_def)
  have "fst (generatePassphraseFromBinary sampleWordList (Content ?data)) =
     Inl (Fatal ''Error reading binary.txt: bufio.Scanner: token too long'')"
    by (simp add: generatePassphraseFromBinary_def r)
  with r fileBits_replicate_zero [of 65536] show ?thesis by blast
qed

text \<open>
  C3. The derivation is a function of the contents of the persisted file and leaves the
  file as it is: deriving a second time, from the file the first derivation leaves
  behind, gives the same result as the first.
\<close>

theorem derivation_deterministic:
  "snd (generatePassphraseFromBinary wordList (Content data)) = Content data \<and>
   fst (generatePassphraseFromBinary wordList
          (snd (generatePassphraseFromBinary wordList (Content data)))) =
     fst (generatePassphraseFromBinary wordList (Content data))"
  by (simp add: generatePassphraseFromBinary_store)

section \<open>Token inspection\<close>

declare binDigits.simps [simp del]

lemma isBinary_loop_iff: "isBinary_loop s \<longleftrightarrow> (\<forall>c \<in> set s. c = CHR ''0'' \<or> c = CHR ''1'')"
  by (induction s) auto

lemma isBinary_iff: "isBinary s \<longleftrightarrow> s \<noteq> [] \<and> (\<forall>c \<in> set s. c = CHR ''0'' \<or> c = CHR ''1'')"
  by (auto simp add: isBinary_def isBinary_loop_iff)

lemma toLower_id: "\<forall>c \<in> set s. toLowerChar c = c \<Longrightarrow> toLower s = s"
  by (simp add: toLower_def map_idI)

lemma trimSpace_id: "\<forall>c \<in> set s. \<not> isSpace c \<Longrightarrow> trimSpace s = s"
proof -
  assume a: "\<forall>c \<in> set s. \<not> isSpace c"
  have d: "dropWhile isSpace xs = xs" if "\<forall>c \<in> set xs. \<not> isSpace c" for xs
    using that by (cases xs) simp_all
  have "dropWhile isSpace (rev s) = rev s" using a by (intro d) simp
  then show ?thesis using d [OF a] by (simp add: trimSpace_def)
qed

lemma digit_plain:
  assumes "c = CHR ''0'' \<or> c = CHR ''1''"
  shows "toLowerChar c = c" "\<not> isSpace c"
  using assms by (auto simp add: toLowerChar_def isSpace_def)

lemma normalise_binary: "isBinary s \<Longrightarrow> trimSpace (toLower s) = s"
proof -
  assume "isBinary s"
  then have *: "\<forall>c \<in> set s. c = CHR ''0'' \<or> c = CHR ''1''" by (simp add: isBinary_iff)
  then have "toLower s = s" by (intro toLower_id) (simp add: digit_plain)
  moreover have "trimSpace s = s" using * by (intro trimSpace_id) (auto simp add: digit_plain)
  ultimately show ?thesis by simp
qed

lemma binaryToInt_loop_bits:
  "binaryToInt_loop n s = bitsToInt_loop n (map (\<lambda>c. c = CHR ''1'') s)"
  by (induction s arbitrary: n) simp_all

lemma binaryToInt_bits: "binaryToInt s = bitsToInt (map (\<lambda>c. c = CHR ''1'') s)"
  by (simp add: binaryToInt_def bitsToInt_def binaryToInt_loop_bits)

lemma natOfBits_append: "natOfBits n (xs @ ys) = natOfBits (natOfBits n xs) ys"
  by (induction xs arbitrary: n) simp_all

lemma natOfBits_leading_zeros: "natOfBits 0 (replicate k False @ bits) = natOfBits 0 bits"
  by (induction k) simp_all

lemma length_zeroPad: "length s \<le> w \<Longrightarrow> length (zeroPad w s) = w"
  by (simp add: zeroPad_def)

lemma zeroPad_full: "w \<le> length s \<Longrightarrow> zeroPad w s = s"
  by (simp add: zeroPad_def)

lemma natOfBits_zeroPad:
  "natOfBits 0 (map (\<lambda>c. c = CHR ''1'') (zeroPad w s)) = natOfBits 0 (map (\<lambda>c. c = CHR ''1'') s)"
  by (simp add: zeroPad_def natOfBits_leading_zeros)

text \<open>
  What \<open>showWordInfo\<close> prints for a binary literal of at most 11 characters.
\<close>

lemma showWordInfo_binary:
  assumes "isBinary s" and "length s \<le> 11" and "length wordList = 2048"
  shows "natOfBits 0 (map (\<lambda>c. c = CHR ''1'') s) < 2048"
    and "showWordInfo s wordList =
      ([LineBinary (zeroPad 11 s),
        LineIndex (int (natOfBits 0 (map (\<lambda>c. c = CHR ''1'') s))),
        LineWord (wordList ! natOfBits 0 (map (\<lambda>c. c = CHR ''1'') s))], None)"
proof -
  let ?p = "zeroPad 11 s"
  let ?v = "natOfBits 0 (map (\<lambda>c. c = CHR ''1'') s)"
  have p: "(if length s < 11 then zeroPad 11 s else s) = ?p"
    using assms(2) by (simp add: zeroPad_full)
  have lp: "length ?p = 11" using assms(2) by (rule length_zeroPad)
  then have lb: "length (map (\<lambda>c. c = CHR ''1'') ?p) \<le> 11" by simp
  note f = sint_bitsToInt [OF lb]
  have n: "nat (sint (binaryToInt ?p)) = ?v"
    using f(3) by (simp only: binaryToInt_bits natOfBits_zeroPad)
  have v: "?v < 2048" using f(4) by (simp only: natOfBits_zeroPad)
  show "?v < 2048" by (rule v)
  have s0: "0 \<le> sint (binaryToInt ?p)" using f(1) by (simp only: binaryToInt_bits)
  with n have si: "sint (binaryToInt ?p) = int ?v" by simp
  have "showWordInfo s wordList =
      (let input = ?p in
         if length input \<noteq> 11 then ([ErrTooManyBits], None)
         else
           (let idx = binaryToInt input in
            if sint idx < 0 \<or> 2048 \<le> sint idx then ([ErrOutOfRange], None)
            else if nat (sint idx) < length wordList
              then ([LineBinary input, LineIndex (sint idx),
                     LineWord (wordList ! nat (sint idx))], None)
              else ([LineBinary input, LineIndex (sint idx)], Some IndexOutOfRange)))"
    unfolding showWordInfo_def by (simp only: normalise_binary [OF assms(1)] Let_def assms(1) if_True p)
  also have "\<dots> = ([LineBinary ?p, LineIndex (int ?v), LineWord (wordList ! ?v)], None)"
    using v by (simp add: Let_def lp si assms(3))
  finally show "showWordInfo s wordList =
      ([LineBinary ?p, LineIndex (int ?v), LineWord (wordList ! ?v)], None)" .
qed

lemma showWordInfo_too_long:
  assumes "isBinary s" and "11 < length s"
  shows "showWordInfo s wordList = ([ErrTooManyBits], None)"
  using assms by (simp add: showWordInfo_def normalise_binary)

text \<open>
  C7. For an input that is a binary literal and a word list of 2048 entries: an input of
  more than 11 characters is rejected, with the line
  \<^verbatim>\<open>Error: binary must be <= 11 bits.\<close>; an input of 1 to 10 characters is padded on
  the left with zeros to 11 characters and accepted, and its index, which is the value
  of the literal, and the word at that index are printed.
\<close>

theorem inspect_binary:
  assumes "isBinary s" and "length wordList = 2048"
  shows "(11 < length s \<longrightarrow> showWordInfo s wordList = ([ErrTooManyBits], None)) \<and>
         (length s < 11 \<longrightarrow>
            1 \<le> length s \<and> length (zeroPad 11 s) = 11 \<and>
            natOfBits 0 (map (\<lambda>c. c = CHR ''1'') s) < 2048 \<and>
            showWordInfo s wordList =
              ([LineBinary (zeroPad 11 s),
                LineIndex (int (natOfBits 0 (map (\<lambda>c. c = CHR ''1'') s))),
                LineWord (wordList ! natOfBits 0 (map (\<lambda>c. c = CHR ''1'') s))], None))"
proof (intro conjI impI)
  assume "11 < length s"
  with assms(1) show "showWordInfo s wordList = ([ErrTooManyBits], None)"
    by (rule showWordInfo_too_long)
next
  assume "length s < 11"
  then have l: "length s \<le> 11" by simp
  from assms(1) show "1 \<le> length s" by (cases s) (simp_all add: isBinary_iff)
  from l show "length (zeroPad 11 s) = 11" by (rule length_zeroPad)
  show "natOfBits 0 (map (\<lambda>c. c = CHR ''1'') s) < 2048"
    by (rule showWordInfo_binary(1) [OF assms(1) l assms(2)])
  show "showWordInfo s wordList =
              ([LineBinary (zeroPad 11 s),
                LineIndex (int (natOfBits 0 (map (\<lambda>c. c = CHR ''1'') s))),
                LineWord (wordList ! natOfBits 0 (map (\<lambda>c. c = CHR ''1'') s))], None)"
    by (rule showWordInfo_binary(2) [OF assms(1) l assms(2)])
qed

theorem inspect_binary_witness:
  "isBinary ''101'' \<and> length sampleWordList = 2048 \<and>
   showWordInfo ''101'' sampleWordList =
     ([LineBinary ''00000000101'', LineIndex 5, LineWord ''aaaaaa''], None) \<and>
   isBinary ''101010101010'' \<and>
   showWordInfo ''101010101010'' sampleWordList = ([ErrTooManyBits], None)"
proof -
  have a: "isBinary ''101''" and b: "isBinary ''101010101010''"
    by (simp_all add: isBinary_def)
  have v: "natOfBits 0 (map (\<lambda>c. c = CHR ''1'') ''101'') = 5" by simp
  have z: "zeroPad 11 ''101'' = ''00000000101''" by (simp add: zeroPad_def numeral_eq_Suc)
  from inspect_binary [OF a length_sampleWordList]
  have "showWordInfo ''101'' sampleWordList =
     ([LineBinary ''00000000101'', LineIndex 5, LineWord ''aaaaaa''], None)"
    unfolding v z by (simp add: nth_sampleWordList numeral_eq_Suc)
  moreover from inspect_binary [OF b length_sampleWordList]
  have "showWordInfo ''101010101010'' sampleWordList = ([ErrTooManyBits], None)"
    by simp
  ultimately show ?thesis using a b length_sampleWordList by blast
qed

lemma letter_plain:
  assumes "c \<in> set ''abcdefghijklmnopqrstuvwxyz''"
  shows "toLowerChar c = c" "\<not> isSpace c" "c \<noteq> CHR ''0''" "c \<noteq> CHR ''1''"
  using assms by (auto simp add: toLowerChar_def isSpace_def)

lemma lowerWord_plain:
  assumes "lowerWord w"
  shows "trimSpace (toLower w) = w" "\<not> isBinary w"
proof -
  from assms have ne: "w \<noteq> []" and *: "\<forall>c \<in> set w. c \<in> set ''abcdefghijklmnopqrstuvwxyz''"
    by (simp_all add: lowerWord_def list_all_iff)
  have "toLower w = w" using * by (intro toLower_id) (blast intro: letter_plain(1))
  moreover have "trimSpace w = w" using * by (intro trimSpace_id) (blast dest: letter_plain(2))
  ultimately show "trimSpace (toLower w) = w" by simp
  from ne obtain c where c: "c \<in> set w" by (cases w) auto
  with * have "c \<noteq> CHR ''0''" "c \<noteq> CHR ''1''" by (blast dest: letter_plain(3,4))+
  with c show "\<not> isBinary w" by (auto simp add: isBinary_iff)
qed

lemma findWord_distinct:
  "distinct ws \<Longrightarrow> i < length ws \<Longrightarrow> findWord k ws (ws ! i) = Some (k + i)"
proof (induction ws arbitrary: k i)
  case Nil
  then show ?case by simp
next
  case (Cons w ws)
  show ?case
  proof (cases i)
    case 0
    then show ?thesis by simp
  next
    case (Suc j)
    with Cons.prems have j: "j < length ws" and d: "distinct ws" and n: "w \<notin> set ws" by simp_all
    from j n have "w \<noteq> ws ! j" by (metis nth_mem)
    with Cons.IH [OF d j, of "Suc k"] Suc show ?thesis by simp
  qed
qed

lemma binDigits_digits: "c \<in> set (binDigits n) \<Longrightarrow> c = CHR ''0'' \<or> c = CHR ''1''"
proof (induction n rule: binDigits.induct)
  case (1 n)
  show ?case
  proof (cases "n < 2")
    case True
    with "1.prems" show ?thesis by (simp add: binDigits.simps [of n] split: if_splits)
  next
    case False
    with "1.prems" "1.IH" show ?thesis
      by (auto simp add: binDigits.simps [of n] split: if_splits)
  qed
qed

lemma binDigits_not_Nil: "binDigits n \<noteq> []"
  by (simp add: binDigits.simps [of n])

lemma natOfBits_binDigits: "natOfBits 0 (map (\<lambda>c. c = CHR ''1'') (binDigits n)) = n"
proof (induction n rule: binDigits.induct)
  case (1 n)
  show ?case
  proof (cases "n < 2")
    case True
    then have "n = 0 \<or> n = 1" by auto
    then show ?thesis by (auto simp add: binDigits.simps [of n])
  next
    case False
    then have ih: "natOfBits 0 (map (\<lambda>c. c = CHR ''1'') (binDigits (n div 2))) = n div 2"
      by (rule "1.IH")
    have "natOfBits 0 (map (\<lambda>c. c = CHR ''1'') (binDigits n)) =
        2 * (n div 2) + (if n mod 2 = 0 then 0 else 1)"
      using False by (simp add: binDigits.simps [of n] natOfBits_append ih)
    also have "\<dots> = n" by presburger
    finally show ?thesis .
  qed
qed

lemma length_binDigits: "0 < k \<Longrightarrow> n < 2 ^ k \<Longrightarrow> length (binDigits n) \<le> k"
proof (induction n arbitrary: k rule: binDigits.induct)
  case (1 n)
  show ?case
  proof (cases "n < 2")
    case True
    with "1.prems" show ?thesis by (simp add: binDigits.simps [of n])
  next
    case False
    from "1.prems" obtain j where k: "k = Suc j" by (cases k) auto
    with False "1.prems" have j: "0 < j" by (cases j) auto
    from "1.prems" k have "n div 2 < 2 ^ j" by simp
    from "1.IH" [OF False j this] show ?thesis
      using False by (simp add: binDigits.simps [of n] k)
  qed
qed

lemma fmt_011b_facts:
  assumes "i < 2048"
  shows "length (fmt_011b i) = 11" "isBinary (fmt_011b i)"
    "natOfBits 0 (map (\<lambda>c. c = CHR ''1'') (fmt_011b i)) = i"
proof -
  have "i < 2 ^ 11" using assms by simp
  then have "length (binDigits i) \<le> 11" by (intro length_binDigits) simp_all
  then show "length (fmt_011b i) = 11" unfolding fmt_011b_def by (rule length_zeroPad)
  show "isBinary (fmt_011b i)"
    using binDigits_not_Nil [of i]
    by (auto simp add: isBinary_iff fmt_011b_def zeroPad_def dest: binDigits_digits)
  show "natOfBits 0 (map (\<lambda>c. c = CHR ''1'') (fmt_011b i)) = i"
    by (simp only: fmt_011b_def natOfBits_zeroPad natOfBits_binDigits)
qed

lemma wellFormed_sampleWordList: "wellFormedWordList sampleWordList"
proof -
  have "inj_on (\<lambda>i. replicate (Suc i) CHR ''a'') (set [0..<2048])"
  proof (rule inj_onI)
    fix x y :: nat
    assume "replicate (Suc x) CHR ''a'' = replicate (Suc y) CHR ''a''"
    then have "length (replicate (Suc x) CHR ''a'') = length (replicate (Suc y) CHR ''a'')"
      by (rule arg_cong)
    then show "x = y" by simp
  qed
  then have "distinct sampleWordList"
    by (simp add: sampleWordList_def distinct_map)
  moreover have "list_all lowerWord sampleWordList"
    by (simp add: sampleWordList_def list_all_iff lowerWord_def)
  ultimately show ?thesis
    by (simp add: wellFormedWordList_def length_sampleWordList)
qed

text \<open>
  C8. For a word list of 2048 distinct words made of the letters a to z and every index
  \<open>i\<close> below 2048: inspecting word \<open>i\<close> prints the word, the index \<open>i\<close> and the binary
  form of \<open>i\<close> padded with zeros to 11 digits; inspecting that binary form prints it, the
  index \<open>i\<close> and word \<open>i\<close>. The binary form has 11 digits and the value \<open>i\<close>.
\<close>

theorem inspect_round_trip:
  assumes "wellFormedWordList wordList" and "i < 2048"
  shows "showWordInfo (wordList ! i) wordList =
           ([LineWord (wordList ! i), LineIndex (int i), LineBinary (fmt_011b i)], None) \<and>
         showWordInfo (fmt_011b i) wordList =
           ([LineBinary (fmt_011b i), LineIndex (int i), LineWord (wordList ! i)], None) \<and>
         length (fmt_011b i) = 11 \<and>
         natOfBits 0 (map (\<lambda>c. c = CHR ''1'') (fmt_011b i)) = i"
proof -
  from assms(1) have len: "length wordList = 2048" and d: "distinct wordList"
    and lw: "list_all lowerWord wordList"
    by (simp_all add: wellFormedWordList_def)
  from assms(2) len have i: "i < length wordList" by simp
  with lw have w: "lowerWord (wordList ! i)" by (simp add: list_all_length)
  have f: "findWord 0 wordList (wordList ! i) = Some i"
    using findWord_distinct [OF d i, of 0] by simp
  have a: "showWordInfo (wordList ! i) wordList =
      ([LineWord (wordList ! i), LineIndex (int i), LineBinary (fmt_011b i)], None)"
    by (simp add: showWordInfo_def lowerWord_plain [OF w] f)
  note b = fmt_011b_facts [OF assms(2)]
  have "length (fmt_011b i) \<le> 11" using b(1) by simp
  from showWordInfo_binary(2) [OF b(2) this len]
  have "showWordInfo (fmt_011b i) wordList =
      ([LineBinary (fmt_011b i), LineIndex (int i), LineWord (wordList ! i)], None)"
    using b(1) by (simp add: b(3) zeroPad_full)
  with a b show ?thesis by blast
qed

theorem inspect_round_trip_witness:
  "wellFormedWordList sampleWordList \<and> (5::nat) < 2048 \<and>
   showWordInfo ''aaaaaa'' sampleWordList =
     ([LineWord ''aaaaaa'', LineIndex 5, LineBinary ''00000000101''], None) \<and>
   showWordInfo ''00000000101'' sampleWordList =
     ([LineBinary ''00000000101'', LineIndex 5, LineWord ''aaaaaa''], None)"
proof -
  have h: "(5::nat) < 2048" by simp
  have w: "sampleWordList ! 5 = ''aaaaaa''" by (simp add: nth_sampleWordList numeral_eq_Suc)
  have b: "fmt_011b 5 = ''00000000101''"
    by code_simp
  from inspect_round_trip [OF wellFormed_sampleWordList h]
  show ?thesis unfolding w b using wellFormed_sampleWordList by simp
qed

section \<open>The persisted encoding\<close>

lemma mod66:
  fixes j :: nat
  shows "j mod 66 = 11 * (j div 11 mod 6) + j mod 11"
  using mod_mult2_eq [of j 11 6] by simp

lemma group_count_step:
  fixes i :: nat
  shows "(i + 1) mod 11 = 0 \<Longrightarrow> ((i div 11) mod 6 + 1 = 6) = ((i + 1) mod 66 = 0)"
    and "(i + 1) mod 11 = 0 \<Longrightarrow> (i div 11) mod 6 + 1 \<noteq> 6 \<Longrightarrow>
           ((i + 1) div 11) mod 6 = (i div 11) mod 6 + 1"
    and "(i + 1) mod 11 = 0 \<Longrightarrow> (i div 11) mod 6 + 1 = 6 \<Longrightarrow> ((i + 1) div 11) mod 6 = 0"
    and "(i + 1) mod 11 \<noteq> 0 \<Longrightarrow> (i + 1) mod 66 \<noteq> 0"
    and "(i + 1) mod 11 \<noteq> 0 \<Longrightarrow> ((i + 1) div 11) mod 6 = (i div 11) mod 6"
    and "(i div 11) mod 6 \<noteq> 6"
proof -
  have d: "(i + 1) div 11 = (if (i + 1) mod 11 = 0 then Suc (i div 11) else i div 11)"
    using div_Suc [of i 11] by simp
  have s: "Suc (i div 11) mod 6 = (if Suc (i div 11 mod 6) = 6 then 0 else Suc (i div 11 mod 6))"
    by (rule mod_Suc)
  note m = mod66 [of "i + 1"]
  show "(i + 1) mod 11 = 0 \<Longrightarrow> ((i div 11) mod 6 + 1 = 6) = ((i + 1) mod 66 = 0)"
    using d s m by (simp split: if_splits)
  show "(i + 1) mod 11 = 0 \<Longrightarrow> (i div 11) mod 6 + 1 \<noteq> 6 \<Longrightarrow>
           ((i + 1) div 11) mod 6 = (i div 11) mod 6 + 1"
    using d s by (simp split: if_splits)
  show "(i + 1) mod 11 = 0 \<Longrightarrow> (i div 11) mod 6 + 1 = 6 \<Longrightarrow> ((i + 1) div 11) mod 6 = 0"
    using d s by (simp split: if_splits)
  show "(i + 1) mod 11 \<noteq> 0 \<Longrightarrow> (i + 1) mod 66 \<noteq> 0"
    using m by simp
  show "(i + 1) mod 11 \<noteq> 0 \<Longrightarrow> ((i + 1) div 11) mod 6 = (i div 11) mod 6"
    using d by simp
  show "(i div 11) mod 6 \<noteq> 6"
    using mod_less_divisor [of 6 "i div 11"] by linarith
qed

lemma tail_rule:
  fixes n :: nat
  assumes "\<not> (0 < n mod 66 \<and> n mod 66 < 11)"
  shows "((n div 11) mod 6 \<noteq> 0) = (n mod 66 \<noteq> 0)"
proof -
  note m = mod66 [of n]
  have "n mod 11 < 11" by simp
  show ?thesis
  proof (cases "(n div 11) mod 6 = 0")
    case True
    with m have "n mod 66 = n mod 11" by simp
    with assms True show ?thesis by simp
  next
    case False
    with m show ?thesis by simp
  qed
qed

lemma writeLoop_layout:
  "groupCount = (i div 11) mod 6 \<Longrightarrow>
   writeLoop i bits groupCount out =
     (out @ layoutFrom i bits, ((i + length bits) div 11) mod 6)"
proof (induction bits arbitrary: i groupCount out)
  case Nil
  then show ?case by simp
next
  case (Cons b bits)
  let ?d = "if b then CHR ''1'' else CHR ''0''"
  show ?case
  proof (cases "(i + 1) mod 11 = 0")
    case g: True
    show ?thesis
    proof (cases "(i div 11) mod 6 + 1 = 6")
      case True
      with group_count_step(1) [OF g] have m: "(i + 1) mod 66 = 0" by simp
      have "writeLoop i (b # bits) groupCount out =
          writeLoop (i + 1) bits 0 (out @ [?d] @ '' '' @ [LF])"
        using g True Cons.prems by simp
      also have "\<dots> = ((out @ [?d] @ '' '' @ [LF]) @ layoutFrom (i + 1) bits,
          ((i + 1 + length bits) div 11) mod 6)"
        by (rule Cons.IH) (simp only: group_count_step(3) [OF g True])
      finally show ?thesis using g m by simp
    next
      case False
      with group_count_step(1) [OF g] have m: "(i + 1) mod 66 \<noteq> 0" by simp
      have "writeLoop i (b # bits) groupCount out =
          writeLoop (i + 1) bits ((i div 11) mod 6 + 1) (out @ [?d] @ '' '')"
        using g False Cons.prems by simp
      also have "\<dots> = ((out @ [?d] @ '' '') @ layoutFrom (i + 1) bits,
          ((i + 1 + length bits) div 11) mod 6)"
        by (rule Cons.IH) (simp only: group_count_step(2) [OF g False])
      finally show ?thesis using g m by simp
    qed
  next
    case False
    then have m: "(i + 1) mod 66 \<noteq> 0" by (rule group_count_step(4))
    have "writeLoop i (b # bits) groupCount out =
        writeLoop (i + 1) bits ((i div 11) mod 6) (out @ [?d])"
      using False Cons.prems group_count_step(6) [of i] by simp
    also have "\<dots> = ((out @ [?d]) @ layoutFrom (i + 1) bits,
        ((i + 1 + length bits) div 11) mod 6)"
      by (rule Cons.IH) (simp only: group_count_step(5) [OF False])
    finally show ?thesis using False m by simp
  qed
qed

lemma binaryText_layout:
  "binaryText entropy =
     layoutFrom 0 (bytesToBits entropy) @
     (if (length (bytesToBits entropy) div 11) mod 6 \<noteq> 0 then [LF] else [])"
  using writeLoop_layout [of 0 0 "bytesToBits entropy" "[]"]
  by (simp add: binaryText_def)

text \<open>
  The code writes the layout of the specification unless the digits end with a line that
  holds less than one full group.
\<close>

lemma binaryText_specText:
  assumes "\<not> (0 < (8 * length entropy) mod 66 \<and> (8 * length entropy) mod 66 < 11)"
  shows "binaryText entropy = specText (bytesToBits entropy)"
proof -
  let ?n = "8 * length entropy"
  from assms have "((?n div 11) mod 6 \<noteq> 0) = (?n mod 66 \<noteq> 0)" by (rule tail_rule)
  then show ?thesis
    by (simp add: binaryText_layout specText_def length_bytesToBits)
qed

lemma binaryText_entropy32:
  "length entropy = 32 \<Longrightarrow> binaryText entropy = specText (bytesToBits entropy)"
  by (rule binaryText_specText) simp

lemma fileBits_layoutFrom: "fileBits (layoutFrom i bits) = bits"
  by (induction bits arbitrary: i) (simp_all add: fileBits_Nil fileBits_Cons fileBits_append)

lemma fileBits_binaryText: "fileBits (binaryText entropy) = bytesToBits entropy"
  by (simp add: binaryText_layout fileBits_append fileBits_layoutFrom fileBits_Nil fileBits_Cons)

text \<open>
  C4. The claim asks for a final newline whenever the last line is partial. For the one
  byte 0xAA the code writes the eight digits and no newline, where the layout of the
  specification ends the partial line with one.
\<close>

theorem short_last_line_without_newline:
  "binaryText [0xAA] = ''10101010'' \<and>
   specText (bytesToBits [0xAA]) = ''10101010'' @ [LF] \<and>
   writeBinaryFile NotExist [0xAA] = (None, Content ''10101010'')"
  by code_simp

section \<open>The scenario of 32 zero bytes\<close>

text \<open>
  The hash of 32 zero bytes is the published SHA-256 value
  \<^verbatim>\<open>66687aad...0d5f2925\<close>, so the checksum of 256 zero bits is the eight bits of 0x66.
\<close>

lemma bitsToBytes_zero: "bitsToBytes (replicate 256 False) = replicate 32 0"
  by code_simp

lemma sum256_zero:
  "sum256 (replicate 32 0) =
     [0x66, 0x68, 0x7a, 0xad, 0xf8, 0x62, 0xbd, 0x77, 0x6c, 0x8f, 0xc1, 0x8b, 0x8e, 0x9f, 0x8e, 0x20,
      0x08, 0x97, 0x14, 0x85, 0x6e, 0xe2, 0x33, 0xb3, 0x90, 0x2a, 0x59, 0x1d, 0x0d, 0x5f, 0x29, 0x25]"
  by code_simp

lemma checksum_zero_entropy:
  "checksumBits (replicate 256 False) = Inr [False, True, True, False, False, True, True, False]"
proof -
  have "length (replicate 256 False) div 32 \<le> 256" by simp
  from checksumBits_ok [OF this]
  have "checksumBits (replicate 256 False) =
      Inr (take 8 (bytesToBits (sum256 (replicate 32 0))))"
    by (simp add: bitsToBytes_zero)
  also have "take 8 (bytesToBits (sum256 (replicate 32 0))) =
      [False, True, True, False, False, True, True, False]"
    unfolding sum256_zero by code_simp
  finally show ?thesis .
qed

end
